theory Spec2Isabelle
  imports Main "HOL-Library.FSet"
begin

section \<open>Configuration\<close>

text \<open>
  The module-level constants of \<^verbatim>\<open>burgerbae_mapped2.py\<close>.
\<close>

definition START_URL :: string where
  "START_URL = ''https://www.burgerbaeclothing.com/''"

definition MAX_PAGES :: nat where
  "MAX_PAGES = 20"

section \<open>Exceptions and the world outside the crawler\<close>

text \<open>
  Every Python exception that the crawler can meet is a value. \<open>ValueError\<close> is what
  \<^verbatim>\<open>urllib.parse.urlparse\<close> raises, \<open>BrowserError\<close> stands for the errors of the
  Playwright calls (navigation errors, timeouts), \<open>OSError\<close> for the file system.
\<close>

datatype exn = ValueError | BrowserError | OSError

text \<open>The six components of \<^verbatim>\<open>urllib.parse.ParseResult\<close>.\<close>

record parse_result =
  scheme :: string
  netloc :: string
  path :: string
  params :: string
  query :: string
  fragment :: string

text \<open>
  What the browser and the file system answer while one page is processed, one field per
  fallible call of the \<^verbatim>\<open>try\<close> body of \<^verbatim>\<open>crawl_site\<close>, in the order of the calls:
  \<^verbatim>\<open>context.new_page()\<close>, \<^verbatim>\<open>page.goto\<close>, \<^verbatim>\<open>page.wait_for_load_state\<close>,
  \<^verbatim>\<open>page.content()\<close>, \<^verbatim>\<open>save_html\<close>, \<^verbatim>\<open>extract_images_and_links\<close>,
  \<^verbatim>\<open>append_to_csv\<close>, the DOM query of \<^verbatim>\<open>extract_internal_links\<close> and
  \<^verbatim>\<open>page.close()\<close>. \<open>None\<close> is a normal return, \<open>Some e\<close> the exception raised.
  The contents of the files written are not part of the model; the anchors returned by the DOM
  query of \<^verbatim>\<open>extract_internal_links\<close> are, since they feed the frontier and the graph.
\<close>

record page_io =
  new_page_res :: "exn option"
  goto_res :: "exn option"
  wait_for_load_state_res :: "exn option"
  content_res :: "exn option"
  save_html_res :: "exn option"
  extract_images_and_links_res :: "exn option"
  append_to_csv_res :: "exn option"
  anchors_res :: "exn + string list"
  close_res :: "exn option"

text \<open>
  The parts of the run that are not code of the repository are parameters:
  \<^item> \<open>sha256_hexdigest\<close>: \<^verbatim>\<open>hashlib.sha256(url.encode()).hexdigest()\<close>, any function
    from strings to digests;
  \<^item> \<open>urlparse\<close>: \<^verbatim>\<open>urllib.parse.urlparse\<close>, which returns a parse result or raises;
  \<^item> \<open>browser n url\<close>: what the browser and the file system answer when \<open>url\<close> is
    processed after \<open>n\<close> earlier pages were started (so the same address may fail once and
    load later);
  \<^item> \<open>launch_res\<close>, \<open>browser_close_res\<close>: starting Playwright, the browser and its context
    before the loop, and \<^verbatim>\<open>browser.close()\<close> after it.
\<close>

record 'd world =
  sha256_hexdigest :: "string \<Rightarrow> 'd"
  urlparse :: "string \<Rightarrow> exn + parse_result"
  browser :: "nat \<Rightarrow> string \<Rightarrow> page_io"
  launch_res :: "exn option"
  browser_close_res :: "exn option"

section \<open>Helpers\<close>

text \<open>\<^verbatim>\<open>str.strip("/")\<close> and \<^verbatim>\<open>str.replace("/", "_")\<close>.\<close>

definition strip_slashes :: "string \<Rightarrow> string" where
  "strip_slashes p =
     rev (dropWhile (\<lambda>c. c = CHR ''/'') (rev (dropWhile (\<lambda>c. c = CHR ''/'') p)))"

definition replace_slashes :: "string \<Rightarrow> string" where
  "replace_slashes p = map (\<lambda>c. if c = CHR ''/'' then CHR ''_'' else c) p"

text \<open>
  \<^verbatim>\<open>sanitize_folder_name\<close>: the path of the address, stripped of surrounding slashes,
  with the remaining slashes replaced; \<^verbatim>\<open>or "index"\<close> takes over when the result is the
  empty string. An exception of \<^verbatim>\<open>urlparse\<close> propagates.
\<close>

definition sanitize_folder_name :: "'d world \<Rightarrow> string \<Rightarrow> exn + string" where
  "sanitize_folder_name w url =
     (case urlparse w url of
        Inl e \<Rightarrow> Inl e
      | Inr parsed \<Rightarrow>
          (let p = strip_slashes (path parsed);
               folder_name = replace_slashes p
           in Inr (if folder_name = [] then ''index'' else folder_name)))"

text \<open>
  \<^verbatim>\<open>is_internal_link\<close>: both addresses are parsed, the base first, with no handler
  around either call, and the two \<open>netloc\<close> strings are compared.
\<close>

definition is_internal_link :: "'d world \<Rightarrow> string \<Rightarrow> string \<Rightarrow> exn + bool" where
  "is_internal_link w base_url link_url =
     (case urlparse w base_url of
        Inl e \<Rightarrow> Inl e
      | Inr b \<Rightarrow>
          (case urlparse w link_url of
             Inl e \<Rightarrow> Inl e
           | Inr l \<Rightarrow> Inr (netloc b = netloc l)))"

text \<open>
  The list comprehension of \<^verbatim>\<open>extract_internal_links\<close>: the links are classified from
  left to right and the first exception ends the comprehension.
\<close>

fun keep_internal :: "'d world \<Rightarrow> string \<Rightarrow> string list \<Rightarrow> exn + string list" where
  "keep_internal w base_url [] = Inr []"
| "keep_internal w base_url (link # links) =
     (case is_internal_link w base_url link of
        Inl e \<Rightarrow> Inl e
      | Inr b \<Rightarrow>
          (case keep_internal w base_url links of
             Inl e \<Rightarrow> Inl e
           | Inr r \<Rightarrow> Inr (if b then link # r else r)))"

definition extract_internal_links :: "'d world \<Rightarrow> string \<Rightarrow> page_io \<Rightarrow> exn + string list" where
  "extract_internal_links w base_url io =
     (case anchors_res io of
        Inl e \<Rightarrow> Inl e
      | Inr links \<Rightarrow> keep_internal w base_url links)"

definition hash_url :: "'d world \<Rightarrow> string \<Rightarrow> 'd" where
  "hash_url w url = sha256_hexdigest w url"

section \<open>The crawler's state\<close>

text \<open>
  The lines that \<^verbatim>\<open>crawl_site\<close> prints: \<^verbatim>\<open>[+] Visiting: url\<close>, the notice that the wait
  for network idle timed out, and \<^verbatim>\<open>[!] Error visiting url: e\<close>.
\<close>

datatype event = Visiting string | Idle_timed_out | Error_visiting string exn

fun visiting_urls :: "event list \<Rightarrow> string list" where
  "visiting_urls [] = []"
| "visiting_urls (Visiting u # es) = u # visiting_urls es"
| "visiting_urls (e # es) = visiting_urls es"

text \<open>
  The variables of \<^verbatim>\<open>crawl_site\<close>: the set \<open>visited\<close> of digests, the deque \<open>queue\<close>,
  the module-level \<^verbatim>\<open>graph_edges\<close> (a \<^verbatim>\<open>defaultdict(set)\<close>: a key exists once it has been
  indexed), the lines printed so far, and how many browser pages were opened and closed.
\<close>

record 'd crawl_state =
  visited :: "'d fset"
  queue :: "string list"
  graph_edges :: "string \<rightharpoonup> string set"
  stdout :: "event list"
  pages_opened :: nat
  pages_closed :: nat

text \<open>\<^verbatim>\<open>graph_edges[src].add(dst)\<close>.\<close>

definition add_edge :: "(string \<rightharpoonup> string set) \<Rightarrow> string \<Rightarrow> string \<Rightarrow> (string \<rightharpoonup> string set)" where
  "add_edge g src dst = g(src \<mapsto> insert dst (case g src of None \<Rightarrow> {} | Some ds \<Rightarrow> ds))"

text \<open>
  The \<^verbatim>\<open>for link in new_links\<close> loop: the edge is added for every link, the link is
  appended to the queue when its digest is not in \<open>visited\<close>.
\<close>

fun enqueue_links :: "'d world \<Rightarrow> string \<Rightarrow> string list \<Rightarrow> 'd crawl_state \<Rightarrow> 'd crawl_state" where
  "enqueue_links w url [] s = s"
| "enqueue_links w url (link # links) s =
     enqueue_links w url links
       (s\<lparr>graph_edges := add_edge (graph_edges s) url link,
          queue := (if hash_url w link |\<in>| visited s then queue s else queue s @ [link])\<rparr>)"

text \<open>
  The body of the \<^verbatim>\<open>try\<close> statement for one address. It returns the state as the body
  left it and the exception that ended it, if any: what was changed before a \<^verbatim>\<open>raise\<close>
  stays changed. \<^verbatim>\<open>visited.add\<close> and \<^verbatim>\<open>page.close()\<close> are the last two statements of
  the body.
\<close>

definition visit :: "'d world \<Rightarrow> string \<Rightarrow> string \<Rightarrow> 'd crawl_state \<Rightarrow> 'd crawl_state \<times> exn option" where
  "visit w start_url url s0 =
     (let io = browser w (length (visiting_urls (stdout s0))) url;
          s1 = s0\<lparr>stdout := stdout s0 @ [Visiting url]\<rparr>
      in case new_page_res io of Some e \<Rightarrow> (s1, Some e) | None \<Rightarrow>
     (let s2 = s1\<lparr>pages_opened := Suc (pages_opened s1)\<rparr>
      in case goto_res io of Some e \<Rightarrow> (s2, Some e) | None \<Rightarrow>
     (let s3 = (case wait_for_load_state_res io of
                  Some e \<Rightarrow> s2\<lparr>stdout := stdout s2 @ [Idle_timed_out]\<rparr>
                | None \<Rightarrow> s2)
      in case sanitize_folder_name w url of Inl e \<Rightarrow> (s3, Some e) | Inr folder_name \<Rightarrow>
     (case content_res io of Some e \<Rightarrow> (s3, Some e) | None \<Rightarrow>
     (case save_html_res io of Some e \<Rightarrow> (s3, Some e) | None \<Rightarrow>
     (case extract_images_and_links_res io of Some e \<Rightarrow> (s3, Some e) | None \<Rightarrow>
     (case append_to_csv_res io of Some e \<Rightarrow> (s3, Some e) | None \<Rightarrow>
     (case extract_internal_links w start_url io of Inl e \<Rightarrow> (s3, Some e) | Inr new_links \<Rightarrow>
     (let s4 = enqueue_links w url new_links s3;
          s5 = s4\<lparr>visited := finsert (hash_url w url) (visited s4)\<rparr>
      in case close_res io of
           Some e \<Rightarrow> (s5, Some e)
         | None \<Rightarrow> (s5\<lparr>pages_closed := Suc (pages_closed s5)\<rparr>, None))))))))))"

text \<open>
  One pass through the body of the \<^verbatim>\<open>while\<close> loop: \<^verbatim>\<open>popleft\<close>, the check of the
  digest, the \<^verbatim>\<open>try\<close> body and its handler, which prints the error and nothing else.
  The loop condition keeps the empty queue away from \<^verbatim>\<open>popleft\<close>.
\<close>

definition iteration :: "'d world \<Rightarrow> string \<Rightarrow> 'd crawl_state \<Rightarrow> 'd crawl_state" where
  "iteration w start_url s =
     (case queue s of
        [] \<Rightarrow> s
      | url # rest \<Rightarrow>
          (let s1 = s\<lparr>queue := rest\<rparr>
           in if hash_url w url |\<in>| visited s1 then s1
              else (case visit w start_url url s1 of
                      (s2, None) \<Rightarrow> s2
                    | (s2, Some e) \<Rightarrow> s2\<lparr>stdout := stdout s2 @ [Error_visiting url e]\<rparr>)))"

text \<open>The condition of the \<^verbatim>\<open>while\<close> loop.\<close>

definition running :: "'d crawl_state \<Rightarrow> bool" where
  "running s = (queue s \<noteq> [] \<and> fcard (visited s) < MAX_PAGES)"

function crawl_loop :: "'d world \<Rightarrow> string \<Rightarrow> 'd crawl_state \<Rightarrow> 'd crawl_state" where
  "crawl_loop w start_url s =
     (if running s then crawl_loop w start_url (iteration w start_url s) else s)"
  by pat_completeness auto
termination
proof (relation "inv_image (less_than <*lex*> less_than)
        (\<lambda>(w, start_url, s). (MAX_PAGES - fcard (visited s), length (queue s)))")
  show "wf (inv_image (less_than <*lex*> less_than)
        (\<lambda>(w :: 'd world, start_url :: string, s :: 'd crawl_state).
           (MAX_PAGES - fcard (visited s), length (queue s))))"
    by (intro wf_inv_image wf_lex_prod wf_less_than)
next
  fix w :: "'d world" and start_url :: string and s :: "'d crawl_state"
  assume run: "running s"
  have enq: "visited (enqueue_links w u ls t) = visited t" for u ls and t :: "'d crawl_state"
    by (induction ls arbitrary: t) simp_all
  from run obtain url rest where q: "queue s = url # rest"
    by (cases "queue s") (simp_all add: running_def)
  from run have lt: "fcard (visited s) < MAX_PAGES"
    by (simp add: running_def)
  have vis: "(visited (fst (visit w start_url url t)) = visited t
        \<and> queue (fst (visit w start_url url t)) = queue t)
      \<or> visited (fst (visit w start_url url t)) = finsert (hash_url w url) (visited t)"
    for t :: "'d crawl_state"
    by (simp add: visit_def Let_def enq split: option.split sum.split)
  show "((w, start_url, iteration w start_url s), (w, start_url, s))
      \<in> inv_image (less_than <*lex*> less_than)
          (\<lambda>(w, start_url, s). (MAX_PAGES - fcard (visited s), length (queue s)))"
  proof (cases "hash_url w url |\<in>| visited s")
    case True
    then show ?thesis
      using q by (simp add: iteration_def)
  next
    case False
    have it: "visited (iteration w start_url s) = visited (fst (visit w start_url url (s\<lparr>queue := rest\<rparr>)))"
      "queue (iteration w start_url s) = queue (fst (visit w start_url url (s\<lparr>queue := rest\<rparr>)))"
      using q False by (simp_all add: iteration_def split: prod.split option.split)
    from vis [of "s\<lparr>queue := rest\<rparr>"] show ?thesis
    proof
      assume "visited (fst (visit w start_url url (s\<lparr>queue := rest\<rparr>))) = visited (s\<lparr>queue := rest\<rparr>)
        \<and> queue (fst (visit w start_url url (s\<lparr>queue := rest\<rparr>))) = queue (s\<lparr>queue := rest\<rparr>)"
      then show ?thesis
        using q it by simp
    next
      assume "visited (fst (visit w start_url url (s\<lparr>queue := rest\<rparr>)))
        = finsert (hash_url w url) (visited (s\<lparr>queue := rest\<rparr>))"
      then show ?thesis
        using q it lt False by (auto simp: fcard_finsert_disjoint)
    qed
  qed
qed

declare crawl_loop.simps [simp del]

text \<open>
  The state before the first test of the loop condition. \<^verbatim>\<open>graph_edges\<close> is the empty
  \<^verbatim>\<open>defaultdict\<close> of the module when the entry point, its only caller, calls
  \<^verbatim>\<open>crawl_site\<close>.
\<close>

definition init_state :: "string \<Rightarrow> 'd crawl_state" where
  "init_state start_url =
     \<lparr>visited = {||}, queue = [start_url], graph_edges = Map.empty, stdout = [],
      pages_opened = 0, pages_closed = 0\<rparr>"

text \<open>
  \<^verbatim>\<open>crawl_site\<close>: an exception while the browser is started, or from
  \<^verbatim>\<open>browser.close()\<close>, is not handled and leaves the function.
\<close>

definition crawl_site :: "'d world \<Rightarrow> string \<Rightarrow> exn + 'd crawl_state" where
  "crawl_site w start_url =
     (case launch_res w of
        Some e \<Rightarrow> Inl e
      | None \<Rightarrow>
          (let s = crawl_loop w start_url (init_state start_url)
           in case browser_close_res w of Some e \<Rightarrow> Inl e | None \<Rightarrow> Inr s))"

text \<open>
  The state at the \<open>n\<close>-th test of the loop condition (counting from 0); once the loop has
  ended the state stays what it is. These are the points of the run at which the invariants
  of the crawl are read.
\<close>

fun state_at :: "'d world \<Rightarrow> string \<Rightarrow> nat \<Rightarrow> 'd crawl_state" where
  "state_at w start_url 0 = init_state start_url"
| "state_at w start_url (Suc n) =
     (let s = state_at w start_url n
      in if running s then iteration w start_url s else s)"

text \<open>
  An address is in scope when the classifier, applied to the seed and the address, returns
  \<^verbatim>\<open>True\<close>: the test under which \<^verbatim>\<open>extract_internal_links\<close> keeps a link.
\<close>

definition in_scope :: "'d world \<Rightarrow> string \<Rightarrow> string \<Rightarrow> bool" where
  "in_scope w start_url u = (is_internal_link w start_url u = Inr True)"

section \<open>A model of the standard library's parser, for the examples\<close>

text \<open>
  The theorems below hold for every \<open>urlparse\<close>. The examples need one to compute with:
  \<open>py_urlparse\<close> follows \<^verbatim>\<open>urlsplit\<close> and \<^verbatim>\<open>urlparse\<close> of CPython 3.11's
  \<^verbatim>\<open>urllib/parse.py\<close> statement by statement, on strings of code points below 256 (on
  which \<^verbatim>\<open>_checknetloc\<close> never raises). The check of a bracketed host, which the library
  delegates to the \<^verbatim>\<open>ipaddress\<close> module, is the parameter \<open>bracketed_host_ok\<close>.
\<close>

definition scheme_chars :: string where
  "scheme_chars = ''abcdefghijklmnopqrstuvwxyzABCDEFGHIJKLMNOPQRSTUVWXYZ0123456789+-.''"

definition ascii_letters :: string where
  "ascii_letters = ''abcdefghijklmnopqrstuvwxyzABCDEFGHIJKLMNOPQRSTUVWXYZ''"

definition uses_params :: "string list" where
  "uses_params = [[], ''ftp'', ''hdl'', ''prospero'', ''http'', ''imap'', ''https'', ''shttp'',
     ''rtsp'', ''rtsps'', ''rtspu'', ''sip'', ''sips'', ''mms'', ''sftp'', ''tel'']"

text \<open>\<^verbatim>\<open>str.lower()\<close> on a character of \<open>scheme_chars\<close>.\<close>

definition lower_char :: "char \<Rightarrow> char" where
  "lower_char c =
     (case map_of (zip ''ABCDEFGHIJKLMNOPQRSTUVWXYZ'' ''abcdefghijklmnopqrstuvwxyz'') c of
        None \<Rightarrow> c
      | Some l \<Rightarrow> l)"

text \<open>\<^verbatim>\<open>url.lstrip(_WHATWG_C0_CONTROL_OR_SPACE)\<close>, then the removal of tab, CR and LF.\<close>

definition lstrip_c0 :: "string \<Rightarrow> string" where
  "lstrip_c0 url = dropWhile (\<lambda>c. (of_char c :: nat) \<le> 32) url"

definition remove_unsafe :: "string \<Rightarrow> string" where
  "remove_unsafe url = filter (\<lambda>c. (of_char c :: nat) \<notin> {9, 10, 13}) url"

text \<open>
  The scheme: \<^verbatim>\<open>i = url.find(':')\<close>, taken when \<open>i > 0\<close>, the first character is an
  ASCII letter and every character before the colon is in \<open>scheme_chars\<close>.
\<close>

definition split_scheme :: "string \<Rightarrow> string \<times> string" where
  "split_scheme url =
     (let pre = takeWhile (\<lambda>c. c \<noteq> CHR '':'') url
      in if CHR '':'' \<in> set url \<and> pre \<noteq> [] \<and> hd pre \<in> set ascii_letters
            \<and> list_all (\<lambda>c. c \<in> set scheme_chars) pre
         then (map lower_char pre, drop (Suc (length pre)) url)
         else ([], url))"

text \<open>\<^verbatim>\<open>_splitnetloc(url, 2)\<close>: up to the first of \<^verbatim>\<open>/?#\<close> after the two slashes.\<close>

definition splitnetloc :: "string \<Rightarrow> string \<times> string" where
  "splitnetloc url =
     (let r = drop 2 url
      in (takeWhile (\<lambda>c. c \<notin> set ''/?#'') r, dropWhile (\<lambda>c. c \<notin> set ''/?#'') r))"

text \<open>\<^verbatim>\<open>url.split(c, 1)\<close> under the guard \<^verbatim>\<open>c in url\<close>; no split otherwise.\<close>

definition split_first :: "char \<Rightarrow> string \<Rightarrow> string \<times> string" where
  "split_first c url =
     (if c \<in> set url
      then (takeWhile (\<lambda>x. x \<noteq> c) url, tl (dropWhile (\<lambda>x. x \<noteq> c) url))
      else (url, []))"

text \<open>\<^verbatim>\<open>netloc.partition('[')[2].partition(']')[0]\<close>.\<close>

definition bracketed_host :: "string \<Rightarrow> string" where
  "bracketed_host nl =
     takeWhile (\<lambda>c. c \<noteq> CHR '']'') (tl (dropWhile (\<lambda>c. c \<noteq> CHR ''['') nl))"

definition urlsplit :: "(string \<Rightarrow> bool) \<Rightarrow> string \<Rightarrow> exn + string \<times> string \<times> string \<times> string \<times> string" where
  "urlsplit bracketed_host_ok url0 =
     (let url1 = remove_unsafe (lstrip_c0 url0);
          (sch, url2) = split_scheme url1;
          (nl, url3) = (if take 2 url2 = ''//'' then splitnetloc url2 else ([], url2))
      in if (CHR ''['' \<in> set nl \<and> CHR '']'' \<notin> set nl) \<or> (CHR '']'' \<in> set nl \<and> CHR ''['' \<notin> set nl)
         then Inl ValueError
         else if CHR ''['' \<in> set nl \<and> CHR '']'' \<in> set nl \<and> \<not> bracketed_host_ok (bracketed_host nl)
         then Inl ValueError
         else (let (url4, frag) = split_first CHR ''#'' url3;
                   (url5, qry) = split_first CHR ''?'' url4
               in Inr (sch, nl, url5, qry, frag)))"

text \<open>
  \<^verbatim>\<open>_splitparams\<close>, called only when the string has a semicolon: the parameters of the
  last path segment.
\<close>

definition splitparams :: "string \<Rightarrow> string \<times> string" where
  "splitparams url =
     (if CHR ''/'' \<in> set url
      then (let k = length url - Suc (length (takeWhile (\<lambda>c. c \<noteq> CHR ''/'') (rev url)));
                seg = drop k url
            in if CHR '';'' \<in> set seg
               then (take k url @ takeWhile (\<lambda>c. c \<noteq> CHR '';'') seg,
                     tl (dropWhile (\<lambda>c. c \<noteq> CHR '';'') seg))
               else (url, []))
      else (takeWhile (\<lambda>c. c \<noteq> CHR '';'') url, tl (dropWhile (\<lambda>c. c \<noteq> CHR '';'') url)))"

definition py_urlparse :: "(string \<Rightarrow> bool) \<Rightarrow> string \<Rightarrow> exn + parse_result" where
  "py_urlparse bracketed_host_ok url =
     (case urlsplit bracketed_host_ok url of
        Inl e \<Rightarrow> Inl e
      | Inr (sch, nl, u, qry, frag) \<Rightarrow>
          (let (p, prm) = (if sch \<in> set uses_params \<and> CHR '';'' \<in> set u
                           then splitparams u else (u, []))
           in Inr \<lparr>scheme = sch, netloc = nl, path = p, params = prm,
                   query = qry, fragment = frag\<rparr>))"

section \<open>Example sites\<close>

text \<open>
  A page that loads, with the anchors the DOM query returns, and a page whose navigation
  raises.
\<close>

definition loaded :: "string list \<Rightarrow> page_io" where
  "loaded links =
     \<lparr>new_page_res = None, goto_res = None, wait_for_load_state_res = None,
      content_res = None, save_html_res = None, extract_images_and_links_res = None,
      append_to_csv_res = None, anchors_res = Inr links, close_res = None\<rparr>"

definition navigation_fails :: page_io where
  "navigation_fails = (loaded [])\<lparr>goto_res := Some BrowserError\<rparr>"

text \<open>
  A world around a site that answers the same way at every attempt. The digest is the
  address itself (injective, as SHA-256 is in practice); no example has a bracketed host.
\<close>

definition example_world :: "(string \<Rightarrow> page_io) \<Rightarrow> string world" where
  "example_world site =
     \<lparr>sha256_hexdigest = (\<lambda>u. u), urlparse = py_urlparse (\<lambda>h. False),
      browser = (\<lambda>n. site), launch_res = None, browser_close_res = None\<rparr>"

text \<open>The example of the specification: the seed links to one page of the site and to another host.\<close>

definition site_two_hosts :: "string \<Rightarrow> page_io" where
  "site_two_hosts u =
     (if u = ''https://ex.com/'' then loaded [''https://ex.com/a'', ''https://other.com/'']
      else loaded [])"

text \<open>The seed links twice to a page whose navigation fails.\<close>

definition site_broken_link :: "string \<Rightarrow> page_io" where
  "site_broken_link u =
     (if u = ''https://ex.com/'' then loaded [''https://ex.com/b'', ''https://ex.com/b'']
      else navigation_fails)"

text \<open>The seed links to itself.\<close>

definition site_self_link :: "string \<Rightarrow> page_io" where
  "site_self_link u = loaded [''https://ex.com/'']"

text \<open>The seed links to A and B, A links to C.\<close>

definition site_abc :: "string \<Rightarrow> page_io" where
  "site_abc u =
     (if u = ''https://ex.com/'' then loaded [''https://ex.com/A'', ''https://ex.com/B'']
      else if u = ''https://ex.com/A'' then loaded [''https://ex.com/C'']
      else loaded [])"

text \<open>No page can be reached.\<close>

definition site_down :: "string \<Rightarrow> page_io" where
  "site_down u = navigation_fails"

text \<open>A chain of pages, each linking to the next: longer than any budget.\<close>

definition chain_url :: "nat \<Rightarrow> string" where
  "chain_url n = ''https://ex.com/'' @ replicate n CHR ''a''"

definition site_chain :: "string \<Rightarrow> page_io" where
  "site_chain u = loaded [u @ ''a'']"

section \<open>The loop body\<close>

lemma enqueue_links_fields:
  "visited (enqueue_links w u ls s) = visited s"
  "stdout (enqueue_links w u ls s) = stdout s"
  "pages_opened (enqueue_links w u ls s) = pages_opened s"
  "pages_closed (enqueue_links w u ls s) = pages_closed s"
  by (induction ls arbitrary: s; simp)+

lemma enqueue_links_queue:
  "queue (enqueue_links w u ls s) = queue s @ [l \<leftarrow> ls. hash_url w l |\<notin>| visited s]"
  by (induction ls arbitrary: s) (simp_all add: enqueue_links_fields)

lemma enqueue_links_graph:
  "graph_edges (enqueue_links w u ls s) = foldl (\<lambda>g l. add_edge g u l) (graph_edges s) ls"
  by (induction ls arbitrary: s) simp_all

lemma visit_stdout:
  "visiting_urls (stdout (fst (visit w st u s))) = visiting_urls (stdout s) @ [u]"
proof -
  have app: "visiting_urls (es @ fs) = visiting_urls es @ visiting_urls fs" for es fs
    by (induction es rule: visiting_urls.induct) simp_all
  show ?thesis
    by (simp add: visit_def Let_def enqueue_links_fields app split: option.split sum.split)
qed

lemma visit_outcome:
  "(snd (visit w st u s) \<noteq> None
      \<and> visited (fst (visit w st u s)) = visited s
      \<and> queue (fst (visit w st u s)) = queue s
      \<and> graph_edges (fst (visit w st u s)) = graph_edges s)
   \<or> (\<exists>ls. extract_internal_links w st (browser w (length (visiting_urls (stdout s))) u) = Inr ls
      \<and> snd (visit w st u s) = close_res (browser w (length (visiting_urls (stdout s))) u)
      \<and> visited (fst (visit w st u s)) = finsert (hash_url w u) (visited s)
      \<and> queue (fst (visit w st u s)) = queue s @ [l \<leftarrow> ls. hash_url w l |\<notin>| visited s]
      \<and> graph_edges (fst (visit w st u s)) = foldl (\<lambda>g l. add_edge g u l) (graph_edges s) ls)"
  by (simp add: visit_def Let_def enqueue_links_fields enqueue_links_queue enqueue_links_graph
      split: option.split sum.split)

lemma iteration_skip:
  "queue s = u # q \<Longrightarrow> hash_url w u |\<in>| visited s \<Longrightarrow> iteration w st s = s\<lparr>queue := q\<rparr>"
  by (simp add: iteration_def)

lemma iteration_visit:
  assumes "queue s = u # q" and "hash_url w u |\<notin>| visited s"
  shows "visited (iteration w st s) = visited (fst (visit w st u (s\<lparr>queue := q\<rparr>)))"
    and "queue (iteration w st s) = queue (fst (visit w st u (s\<lparr>queue := q\<rparr>)))"
    and "graph_edges (iteration w st s) = graph_edges (fst (visit w st u (s\<lparr>queue := q\<rparr>)))"
    and "pages_opened (iteration w st s) = pages_opened (fst (visit w st u (s\<lparr>queue := q\<rparr>)))"
    and "pages_closed (iteration w st s) = pages_closed (fst (visit w st u (s\<lparr>queue := q\<rparr>)))"
    and "stdout (iteration w st s) = stdout (fst (visit w st u (s\<lparr>queue := q\<rparr>)))
          @ (case snd (visit w st u (s\<lparr>queue := q\<rparr>)) of None \<Rightarrow> [] | Some e \<Rightarrow> [Error_visiting u e])"
  using assms by (simp_all add: iteration_def split: prod.split option.split)

lemma visiting_urls_append:
  "visiting_urls (es @ fs) = visiting_urls es @ visiting_urls fs"
  by (induction es rule: visiting_urls.induct) simp_all

lemma iteration_visiting:
  assumes "queue s = u # q" and "hash_url w u |\<notin>| visited s"
  shows "visiting_urls (stdout (iteration w st s)) = visiting_urls (stdout s) @ [u]"
  using assms
  by (simp add: iteration_visit visiting_urls_append visit_stdout split: option.split)

lemma crawl_loop_step:
  "running s \<Longrightarrow> crawl_loop w st s = crawl_loop w st (iteration w st s)"
  by (subst crawl_loop.simps) simp

lemma crawl_loop_stop:
  "\<not> running s \<Longrightarrow> crawl_loop w st s = s"
  by (subst crawl_loop.simps) simp

lemma crawl_loop_state_at:
  "crawl_loop w st (state_at w st n) = crawl_loop w st (init_state st)"
proof (induction n)
  case 0
  show ?case by simp
next
  case (Suc n)
  show ?case
  proof (cases "running (state_at w st n)")
    case True
    then show ?thesis
      using Suc crawl_loop_step [of "state_at w st n" w st] by (simp add: Let_def)
  next
    case False
    then show ?thesis
      using Suc by (simp add: Let_def)
  qed
qed

lemma state_at_stopped:
  "\<not> running (state_at w st n) \<Longrightarrow> n \<le> m \<Longrightarrow> state_at w st m = state_at w st n"
  by (induction m) (auto simp: Let_def le_Suc_eq)

lemma crawl_loop_reaches:
  "\<exists>k. crawl_loop w st s = ((\<lambda>t. if running t then iteration w st t else t) ^^ k) s
       \<and> \<not> running (crawl_loop w st s)"
proof (induction w st s rule: crawl_loop.induct)
  case (1 w st s)
  show ?case
  proof (cases "running s")
    case True
    with 1 obtain k where k: "crawl_loop w st (iteration w st s)
        = ((\<lambda>t. if running t then iteration w st t else t) ^^ k) (iteration w st s)"
      "\<not> running (crawl_loop w st (iteration w st s))"
      by blast
    have "crawl_loop w st s = ((\<lambda>t. if running t then iteration w st t else t) ^^ Suc k) s"
    proof -
      have "((\<lambda>t. if running t then iteration w st t else t) ^^ Suc k) s
          = ((\<lambda>t. if running t then iteration w st t else t) ^^ k) (iteration w st s)"
        using True by (simp only: funpow_Suc_right o_apply if_True)
      then show ?thesis
        using k(1) crawl_loop_step [OF True, of w st] by simp
    qed
    moreover have "\<not> running (crawl_loop w st s)"
      using k(2) crawl_loop_step [OF True, of w st] by simp
    ultimately show ?thesis by blast
  next
    case False
    then have "crawl_loop w st s = ((\<lambda>t. if running t then iteration w st t else t) ^^ 0) s"
      by (simp add: crawl_loop_stop)
    moreover have "\<not> running (crawl_loop w st s)"
      using False by (simp add: crawl_loop_stop)
    ultimately show ?thesis by blast
  qed
qed

lemma state_at_funpow:
  "state_at w st n = ((\<lambda>t. if running t then iteration w st t else t) ^^ n) (init_state st)"
  by (induction n) (simp_all add: Let_def)

lemma crawl_loop_final:
  "\<exists>n. crawl_loop w st (init_state st) = state_at w st n \<and> \<not> running (state_at w st n)"
  using crawl_loop_reaches [of w st "init_state st"] by (auto simp: state_at_funpow)

section \<open>The states of a run\<close>

lemma keep_internal_in_scope:
  "keep_internal w st ls = Inr r \<Longrightarrow> l \<in> set r \<Longrightarrow> in_scope w st l"
  by (induction ls arbitrary: r) (auto simp: in_scope_def split: sum.splits if_splits)

lemma extract_internal_links_in_scope:
  "extract_internal_links w st io = Inr r \<Longrightarrow> l \<in> set r \<Longrightarrow> in_scope w st l"
  by (auto simp: extract_internal_links_def keep_internal_in_scope split: sum.splits)

lemma in_scope_seed:
  "in_scope w st l \<Longrightarrow> in_scope w st st"
  by (auto simp: in_scope_def is_internal_link_def split: sum.splits)

lemma foldl_add_edge:
  "foldl (\<lambda>g l. add_edge g u l) g ls src =
     (if src = u \<and> ls \<noteq> []
      then Some (set ls \<union> (case g u of None \<Rightarrow> {} | Some ds \<Rightarrow> ds))
      else g src)"
  by (induction ls arbitrary: g) (auto simp: add_edge_def split: option.splits)

lemma state_at_Suc_running:
  "running (state_at w st n) \<Longrightarrow> state_at w st (Suc n) = iteration w st (state_at w st n)"
  by (simp add: Let_def)

lemma state_at_Suc_stopped:
  "\<not> running (state_at w st n) \<Longrightarrow> state_at w st (Suc n) = state_at w st n"
  by (simp add: Let_def)

lemma running_queue:
  "running s \<Longrightarrow> \<exists>u q. queue s = u # q"
  by (cases "queue s") (simp_all add: running_def)

lemma iteration_visited:
  "visited (iteration w st s) = visited s
    \<or> (\<exists>u q. queue s = u # q \<and> hash_url w u |\<notin>| visited s
          \<and> visited (iteration w st s) = finsert (hash_url w u) (visited s))"
proof (cases "queue s")
  case Nil
  then show ?thesis by (simp add: iteration_def)
next
  case (Cons u q)
  show ?thesis
  proof (cases "hash_url w u |\<in>| visited s")
    case True
    then show ?thesis using Cons by (simp add: iteration_skip)
  next
    case False
    then show ?thesis
      using Cons visit_outcome [of w st u "s\<lparr>queue := q\<rparr>"]
      by (auto simp: iteration_visit)
  qed
qed

lemma fcard_state_at:
  "fcard (visited (state_at w st n)) \<le> MAX_PAGES"
proof (induction n)
  case 0
  show ?case by (simp add: init_state_def fcard_fempty)
next
  case (Suc n)
  show ?case
  proof (cases "running (state_at w st n)")
    case True
    then have "fcard (visited (state_at w st n)) < MAX_PAGES"
      by (simp add: running_def)
    moreover have "fcard (visited (iteration w st (state_at w st n)))
        \<le> Suc (fcard (visited (state_at w st n)))"
      using iteration_visited [of w st "state_at w st n"]
      by (auto simp: fcard_finsert_disjoint)
    ultimately show ?thesis
      using True by (simp add: state_at_Suc_running)
  next
    case False
    then show ?thesis
      using Suc by (simp add: state_at_Suc_stopped)
  qed
qed





lemma scope_invariant:
  "(\<forall>src dsts. graph_edges (state_at w st n) src = Some dsts \<longrightarrow>
       dsts \<noteq> {} \<and> (src = st \<or> in_scope w st src) \<and> (\<forall>d\<in>dsts. in_scope w st d))
   \<and> (\<forall>u\<in>set (queue (state_at w st n)). u = st \<or> in_scope w st u)"
proof (induction n)
  case 0
  show ?case by (simp add: init_state_def)
next
  case (Suc n)
  let ?s = "state_at w st n"
  show ?case
  proof (cases "running ?s")
    case False
    then show ?thesis
      using Suc state_at_Suc_stopped [OF False] by simp
  next
    case True
    then obtain u q where qu: "queue ?s = u # q"
      using running_queue by blast
    have nxt: "state_at w st (Suc n) = iteration w st ?s"
      using True by (rule state_at_Suc_running)
    from Suc qu have u: "u = st \<or> in_scope w st u" and q: "\<forall>v\<in>set q. v = st \<or> in_scope w st v"
      by simp_all
    from Suc have g: "\<And>src dsts. graph_edges ?s src = Some dsts \<Longrightarrow>
        dsts \<noteq> {} \<and> (src = st \<or> in_scope w st src) \<and> (\<forall>d\<in>dsts. in_scope w st d)"
      by blast
    show ?thesis
    proof (cases "hash_url w u |\<in>| visited ?s")
      case True
      then have "iteration w st ?s = ?s\<lparr>queue := q\<rparr>"
        using qu by (simp add: iteration_skip)
      then show ?thesis
        unfolding nxt using q g by simp
    next
      case False
      let ?V = "fst (visit w st u (?s\<lparr>queue := q\<rparr>))"
      have it: "queue (iteration w st ?s) = queue ?V" "graph_edges (iteration w st ?s) = graph_edges ?V"
        using qu False by (simp_all add: iteration_visit)
      from visit_outcome [of w st u "?s\<lparr>queue := q\<rparr>"]
      consider (same) "queue ?V = q" "graph_edges ?V = graph_edges ?s"
        | (links) ls where "extract_internal_links w st
              (browser w (length (visiting_urls (stdout ?s))) u) = Inr ls"
            "queue ?V = q @ [l \<leftarrow> ls. hash_url w l |\<notin>| visited ?s]"
            "graph_edges ?V = foldl (\<lambda>g l. add_edge g u l) (graph_edges ?s) ls"
        by auto
      then show ?thesis
      proof cases
        case same
        then show ?thesis
          unfolding nxt using it q g by simp
      next
        case links
        have ls: "\<forall>l\<in>set ls. in_scope w st l"
          using links(1) extract_internal_links_in_scope by blast
        have gS: "graph_edges (state_at w st (Suc n)) src =
            (if src = u \<and> ls \<noteq> []
             then Some (set ls \<union> (case graph_edges ?s u of None \<Rightarrow> {} | Some ds \<Rightarrow> ds))
             else graph_edges ?s src)" for src
          unfolding nxt it(2) links(3) by (rule foldl_add_edge)
        have qS: "queue (state_at w st (Suc n)) = q @ [l \<leftarrow> ls. hash_url w l |\<notin>| visited ?s]"
          unfolding nxt it(1) by (rule links(2))
        have queue': "\<forall>v\<in>set (queue (state_at w st (Suc n))). v = st \<or> in_scope w st v"
          unfolding qS using q ls by auto
        have graph': "dsts \<noteq> {} \<and> (src = st \<or> in_scope w st src) \<and> (\<forall>d\<in>dsts. in_scope w st d)"
          if "graph_edges (state_at w st (Suc n)) src = Some dsts" for src dsts
        proof (cases "src = u \<and> ls \<noteq> []")
          case False
          then have "graph_edges ?s src = Some dsts"
            using that [unfolded gS] by (auto split: if_splits)
          then show ?thesis by (rule g)
        next
          case True
          then have d: "dsts = set ls \<union> (case graph_edges ?s u of None \<Rightarrow> {} | Some ds \<Rightarrow> ds)"
            using that [unfolded gS] by (auto split: if_splits)
          have "\<forall>d\<in>(case graph_edges ?s u of None \<Rightarrow> {} | Some ds \<Rightarrow> ds). in_scope w st d"
            using g [of u] by (cases "graph_edges ?s u") simp_all
          then show ?thesis
            using d True ls u by auto
        qed
        show ?thesis
          using queue' graph' by blast
      qed
    qed
  qed
qed

lemma visited_mono_step:
  "visited (state_at w st m) |\<subseteq>| visited (state_at w st (Suc m))"
proof (cases "running (state_at w st m)")
  case True
  then show ?thesis
    unfolding state_at_Suc_running [OF True]
    using iteration_visited [of w st "state_at w st m"] by auto
next
  case False
  then show ?thesis
    unfolding state_at_Suc_stopped [OF False] by simp
qed

lemma visited_mono:
  "n \<le> m \<Longrightarrow> visited (state_at w st n) |\<subseteq>| visited (state_at w st m)"
proof (induction m)
  case 0
  then show ?case by simp
next
  case (Suc m)
  show ?case
  proof (cases "n = Suc m")
    case True
    then show ?thesis by simp
  next
    case False
    with Suc have "visited (state_at w st n) |\<subseteq>| visited (state_at w st m)"
      by simp
    then show ?thesis
      using visited_mono_step [of w st m] by (rule fsubset_trans)
  qed
qed

lemma visiting_step:
  "\<exists>later. visiting_urls (stdout (state_at w st (Suc m)))
        = visiting_urls (stdout (state_at w st m)) @ later
     \<and> (\<forall>u\<in>set later. hash_url w u |\<notin>| visited (state_at w st m))"
proof (cases "running (state_at w st m)")
  case False
  show ?thesis
    unfolding state_at_Suc_stopped [OF False] by (rule exI [of _ "[]"]) simp
next
  case True
  then obtain u q where qu: "queue (state_at w st m) = u # q"
    using running_queue by blast
  show ?thesis
  proof (cases "hash_url w u |\<in>| visited (state_at w st m)")
    case True
    show ?thesis
      unfolding state_at_Suc_running [OF \<open>running (state_at w st m)\<close>] iteration_skip [OF qu True]
      by (rule exI [of _ "[]"]) simp
  next
    case False
    show ?thesis
      unfolding state_at_Suc_running [OF True] iteration_visiting [OF qu False]
      using False by (intro exI [of _ "[u]"]) simp
  qed
qed

lemma visiting_later:
  "n \<le> m \<Longrightarrow> \<exists>later. visiting_urls (stdout (state_at w st m))
        = visiting_urls (stdout (state_at w st n)) @ later
     \<and> (\<forall>u\<in>set later. hash_url w u |\<notin>| visited (state_at w st n))"
proof (induction m)
  case 0
  then show ?case by simp
next
  case (Suc m)
  show ?case
  proof (cases "n = Suc m")
    case True
    then show ?thesis by simp
  next
    case False
    with Suc obtain l1 where l1: "visiting_urls (stdout (state_at w st m))
        = visiting_urls (stdout (state_at w st n)) @ l1"
      "\<forall>u\<in>set l1. hash_url w u |\<notin>| visited (state_at w st n)"
      by auto
    from visiting_step [of w st m] obtain l2 where l2: "visiting_urls (stdout (state_at w st (Suc m)))
        = visiting_urls (stdout (state_at w st m)) @ l2"
      "\<forall>u\<in>set l2. hash_url w u |\<notin>| visited (state_at w st m)"
      by blast
    have "n \<le> m"
      using Suc.prems False by simp
    then have "visited (state_at w st n) |\<subseteq>| visited (state_at w st m)"
      by (rule visited_mono)
    then have "\<forall>u\<in>set l2. hash_url w u |\<notin>| visited (state_at w st n)"
      using l2(2) by blast
    then have "visiting_urls (stdout (state_at w st (Suc m)))
        = visiting_urls (stdout (state_at w st n)) @ (l1 @ l2)
      \<and> (\<forall>u\<in>set (l1 @ l2). hash_url w u |\<notin>| visited (state_at w st n))"
      using l1 l2(1) by auto
    then show ?thesis by blast
  qed
qed



declare state_at.simps(2) [simp del]

lemma in_scope_sanitize:
  assumes "in_scope w st l"
  shows "\<exists>f. sanitize_folder_name w l = Inr f" and "\<exists>f. sanitize_folder_name w st = Inr f"
  using assms
  by (auto simp: in_scope_def is_internal_link_def sanitize_folder_name_def Let_def split: sum.splits)

lemma iteration_loaded:
  assumes "queue s = u # q" and "hash_url w u |\<notin>| visited s"
    and "browser w (length (visiting_urls (stdout s))) u = loaded as"
    and "keep_internal w st as = Inr ls"
    and "sanitize_folder_name w u = Inr f"
  shows "visited (iteration w st s) = finsert (hash_url w u) (visited s)"
    and "queue (iteration w st s) = q @ [l \<leftarrow> ls. hash_url w l |\<notin>| visited s]"
    and "visiting_urls (stdout (iteration w st s)) = visiting_urls (stdout s) @ [u]"
proof -
  let ?t = "s\<lparr>queue := rest\<rparr>"
  have "visited (fst (visit w st u (s\<lparr>queue := q\<rparr>))) = finsert (hash_url w u) (visited s)
      \<and> queue (fst (visit w st u (s\<lparr>queue := q\<rparr>))) = q @ [l \<leftarrow> ls. hash_url w l |\<notin>| visited s]"
    using assms(3-5)
    by (simp add: visit_def Let_def loaded_def extract_internal_links_def
        enqueue_links_fields enqueue_links_queue)
  then show "visited (iteration w st s) = finsert (hash_url w u) (visited s)"
    and "queue (iteration w st s) = q @ [l \<leftarrow> ls. hash_url w l |\<notin>| visited s]"
    using assms(1,2) by (simp_all add: iteration_visit)
  show "visiting_urls (stdout (iteration w st s)) = visiting_urls (stdout s) @ [u]"
    using assms(1,2) by (rule iteration_visiting)
qed

lemma urlparse_chain_url:
  "urlparse (example_world site) (chain_url n)
     = Inr \<lparr>scheme = ''https'', netloc = ''ex.com'', path = CHR ''/'' # replicate n CHR ''a'',
            params = [], query = [], fragment = []\<rparr>"
  by (simp add: example_world_def chain_url_def py_urlparse_def urlsplit_def remove_unsafe_def
      lstrip_c0_def split_scheme_def scheme_chars_def ascii_letters_def lower_char_def
      splitnetloc_def split_first_def uses_params_def)

lemma hash_url_example:
  "hash_url (example_world site) u = u"
  by (simp add: hash_url_def example_world_def)

lemma browser_example:
  "browser (example_world site) k u = site u"
  by (simp add: example_world_def)

lemma length_chain_url:
  "length (chain_url n) = 15 + n"
  by (simp add: chain_url_def)

lemma chain_url_Suc:
  "chain_url n @ ''a'' = chain_url (Suc n)"
  by (simp add: chain_url_def replicate_append_same)

lemma chain_run:
  "n \<le> MAX_PAGES \<Longrightarrow>
     fcard (visited (state_at (example_world site_chain) (chain_url 0) n)) = n
     \<and> queue (state_at (example_world site_chain) (chain_url 0) n) = [chain_url n]
     \<and> (\<forall>x. x |\<in>| visited (state_at (example_world site_chain) (chain_url 0) n)
          \<longrightarrow> length x < length (chain_url n))"
proof (induction n)
  case 0
  show ?case
    by (simp add: state_at.simps init_state_def fcard_fempty)
next
  case (Suc n)
  let ?w = "example_world site_chain"
  let ?s = "state_at ?w (chain_url 0) n"
  from Suc have ih: "fcard (visited ?s) = n" "queue ?s = chain_url n # []"
    "\<forall>x. x |\<in>| visited ?s \<longrightarrow> length x < length (chain_url n)"
    by simp_all
  have r: "running ?s"
    using Suc.prems ih by (simp add: running_def)
  have nv: "hash_url ?w (chain_url n) |\<notin>| visited ?s"
    using ih(3) by (auto simp: hash_url_example)
  have b: "browser ?w (length (visiting_urls (stdout ?s))) (chain_url n) = loaded [chain_url (Suc n)]"
    by (simp add: browser_example site_chain_def chain_url_Suc)
  have k: "keep_internal ?w (chain_url 0) [chain_url (Suc n)] = Inr [chain_url (Suc n)]"
    by (simp add: is_internal_link_def urlparse_chain_url)
  have f: "sanitize_folder_name ?w (chain_url n)
      = Inr (if replace_slashes (strip_slashes (path \<lparr>scheme = ''https'', netloc = ''ex.com'',
            path = CHR ''/'' # replicate n CHR ''a'', params = [], query = [], fragment = []\<rparr>)) = []
          then ''index''
          else replace_slashes (strip_slashes (path \<lparr>scheme = ''https'', netloc = ''ex.com'',
            path = CHR ''/'' # replicate n CHR ''a'', params = [], query = [], fragment = []\<rparr>)))"
    by (simp only: sanitize_folder_name_def urlparse_chain_url sum.case Let_def)
  have nxt: "state_at ?w (chain_url 0) (Suc n) = iteration ?w (chain_url 0) ?s"
    using r by (rule state_at_Suc_running)
  have nl: "hash_url ?w (chain_url (Suc n)) |\<notin>| visited ?s"
    using ih(3) by (auto simp: hash_url_example length_chain_url)
  have v': "visited (state_at ?w (chain_url 0) (Suc n)) = finsert (chain_url n) (visited ?s)"
    unfolding nxt using iteration_loaded(1) [OF ih(2) nv b k f]
    by (simp add: hash_url_example)
  have q': "queue (state_at ?w (chain_url 0) (Suc n)) = [chain_url (Suc n)]"
    unfolding nxt using iteration_loaded(2) [OF ih(2) nv b k f] nl
    by simp
  have "fcard (visited (state_at ?w (chain_url 0) (Suc n))) = Suc n"
    using nv ih(1) by (simp add: v' fcard_finsert_disjoint hash_url_example)
  moreover have "\<forall>x. x |\<in>| visited (state_at ?w (chain_url 0) (Suc n))
      \<longrightarrow> length x < length (chain_url (Suc n))"
    using ih(3) by (auto simp: v' length_chain_url)
  ultimately show ?case
    using q' by blast
qed

section \<open>No duplicate visits\<close>




section \<open>The page budget\<close>

text \<open>
  Claim C2: at every test of the loop condition the visited set has at most \<open>MAX_PAGES\<close>
  elements, and once it has exactly \<open>MAX_PAGES\<close> the state never changes again, so nothing
  more is dequeued, and the loop returns that state, whatever is left in the queue.
\<close>

theorem visited_within_budget:
  "fcard (visited (state_at w start_url n)) \<le> MAX_PAGES
   \<and> (fcard (visited (state_at w start_url n)) = MAX_PAGES \<longrightarrow>
        (\<forall>m\<ge>n. state_at w start_url m = state_at w start_url n)
        \<and> crawl_loop w start_url (init_state start_url) = state_at w start_url n)"
proof (intro conjI impI)
  show "fcard (visited (state_at w start_url n)) \<le> MAX_PAGES"
    by (rule fcard_state_at)
next
  assume full: "fcard (visited (state_at w start_url n)) = MAX_PAGES"
  then have stop: "\<not> running (state_at w start_url n)"
    by (simp add: running_def)
  then show "\<forall>m\<ge>n. state_at w start_url m = state_at w start_url n"
    using state_at_stopped [of w start_url n] by blast
  show "crawl_loop w start_url (init_state start_url) = state_at w start_url n"
    using stop crawl_loop_state_at [of w start_url n] by (simp add: crawl_loop_stop)
qed

text \<open>
  The theorem on the chain of pages: after twenty passes the visited set is full, the queue
  still holds the next page, and the loop has ended there.
\<close>

theorem visited_within_budget_witness:
  "fcard (visited (state_at (example_world site_chain) ''https://ex.com/'' 20)) = MAX_PAGES
   \<and> queue (state_at (example_world site_chain) ''https://ex.com/'' 20) \<noteq> []
   \<and> (20::nat) \<le> 21
   \<and> state_at (example_world site_chain) ''https://ex.com/'' 21
       = state_at (example_world site_chain) ''https://ex.com/'' 20
   \<and> crawl_loop (example_world site_chain) ''https://ex.com/'' (init_state ''https://ex.com/'')
       = state_at (example_world site_chain) ''https://ex.com/'' 20"
proof -
  have seed: "chain_url 0 = ''https://ex.com/''"
    by (simp add: chain_url_def)
  have full: "fcard (visited (state_at (example_world site_chain) ''https://ex.com/'' 20)) = MAX_PAGES"
    and more: "queue (state_at (example_world site_chain) ''https://ex.com/'' 20) \<noteq> []"
    using chain_run [of 20] by (simp_all add: seed MAX_PAGES_def)
  have le: "(20::nat) \<le> 21"
    by simp
  show ?thesis
    using visited_within_budget [of "example_world site_chain" "''https://ex.com/''" 20] full more le
    by blast
qed

section \<open>A failed page\<close>

text \<open>
  Claim C3 as stated fails. On the site with the broken link, the page whose navigation
  raised is not in the visited set after its processing, and it is processed a second time
  when its second entry is dequeued.
\<close>

theorem failed_page_not_marked_visited:
  "stdout (state_at (example_world site_broken_link) ''https://ex.com/'' 3)
     = [Visiting ''https://ex.com/'',
        Visiting ''https://ex.com/b'', Error_visiting ''https://ex.com/b'' BrowserError,
        Visiting ''https://ex.com/b'', Error_visiting ''https://ex.com/b'' BrowserError]
   \<and> hash_url (example_world site_broken_link) ''https://ex.com/b''
        |\<notin>| visited (state_at (example_world site_broken_link) ''https://ex.com/'' 3)"
  by code_simp

text \<open>
  Claim C3, amended: when the processing of a dequeued address raises, the handler prints the
  error and the loop goes on from the rest of the queue; if the next entry is not in the
  visited set it is the next page started. The address is not marked visited, unless the
  exception came from \<^verbatim>\<open>page.close()\<close>, the statement after \<^verbatim>\<open>visited.add\<close>; so
  it is processed again when it is dequeued again.
\<close>

theorem failure_is_logged_and_loop_goes_on:
  assumes "running s" and "queue s = url # rest" and "hash_url w url |\<notin>| visited s"
    and "snd (visit w start_url url (s\<lparr>queue := rest\<rparr>)) = Some e"
  shows "last (stdout (iteration w start_url s)) = Error_visiting url e
     \<and> crawl_loop w start_url s = crawl_loop w start_url (iteration w start_url s)
     \<and> (\<exists>added. queue (iteration w start_url s) = rest @ added)
     \<and> (\<forall>v rest'. rest = v # rest' \<and> hash_url w v |\<notin>| visited (iteration w start_url s)
          \<longrightarrow> visiting_urls (stdout (iteration w start_url (iteration w start_url s)))
              = visiting_urls (stdout s) @ [url, v])
     \<and> (visited (iteration w start_url s) = visited s
         \<or> (close_res (browser w (length (visiting_urls (stdout s))) url) = Some e
            \<and> visited (iteration w start_url s) = finsert (hash_url w url) (visited s)))"
proof -
  let ?t = "s\<lparr>queue := rest\<rparr>"
  let ?s' = "iteration w start_url s"
  have logged: "last (stdout ?s') = Error_visiting url e"
    using assms(2-4) by (simp add: iteration_visit)
  have goes_on: "crawl_loop w start_url s = crawl_loop w start_url ?s'"
    using assms(1) by (rule crawl_loop_step)
  have out: "(queue ?s' = rest \<and> visited ?s' = visited s)
      \<or> (\<exists>ls. queue ?s' = rest @ [l \<leftarrow> ls. hash_url w l |\<notin>| visited s]
            \<and> close_res (browser w (length (visiting_urls (stdout s))) url) = Some e
            \<and> visited ?s' = finsert (hash_url w url) (visited s))"
    using visit_outcome [of w start_url url ?t] assms(2-4)
    by (auto simp: iteration_visit)
  then have queue': "\<exists>added. queue ?s' = rest @ added"
    by auto
  have next_entry: "visiting_urls (stdout (iteration w start_url ?s'))
      = visiting_urls (stdout s) @ [url, v]"
    if "rest = v # rest'" and "hash_url w v |\<notin>| visited ?s'" for v rest'
  proof -
    from queue' that(1) obtain added where "queue ?s' = v # (rest' @ added)"
      by auto
    then have "visiting_urls (stdout (iteration w start_url ?s')) = visiting_urls (stdout ?s') @ [v]"
      using that(2) by (rule iteration_visiting)
    then show ?thesis
      using iteration_visiting [OF assms(2,3), of start_url] by simp
  qed
  show ?thesis
    using logged goes_on queue' next_entry out by blast
qed

text \<open>
  The theorem at the second pass over the site with the broken link: the first entry for the
  broken page fails, the error is the last line printed.
\<close>

theorem failure_is_logged_and_loop_goes_on_witness:
  "running (state_at (example_world site_broken_link) ''https://ex.com/'' 1)
   \<and> queue (state_at (example_world site_broken_link) ''https://ex.com/'' 1)
        = ''https://ex.com/b'' # [''https://ex.com/b'']
   \<and> hash_url (example_world site_broken_link) ''https://ex.com/b''
        |\<notin>| visited (state_at (example_world site_broken_link) ''https://ex.com/'' 1)
   \<and> snd (visit (example_world site_broken_link) ''https://ex.com/'' ''https://ex.com/b''
          ((state_at (example_world site_broken_link) ''https://ex.com/'' 1)\<lparr>queue := [''https://ex.com/b'']\<rparr>))
        = Some BrowserError
   \<and> last (stdout (iteration (example_world site_broken_link) ''https://ex.com/''
          (state_at (example_world site_broken_link) ''https://ex.com/'' 1)))
        = Error_visiting ''https://ex.com/b'' BrowserError"
proof -
  let ?w = "example_world site_broken_link"
  let ?s = "state_at ?w ''https://ex.com/'' 1"
  have r: "running ?s"
    by code_simp
  have q: "queue ?s = ''https://ex.com/b'' # [''https://ex.com/b'']"
    by code_simp
  have v: "hash_url ?w ''https://ex.com/b'' |\<notin>| visited ?s"
    by code_simp
  have f: "snd (visit ?w ''https://ex.com/'' ''https://ex.com/b'' (?s\<lparr>queue := [''https://ex.com/b'']\<rparr>))
      = Some BrowserError"
    by code_simp
  show ?thesis
    using failure_is_logged_and_loop_goes_on [OF r q v f] r q v f by blast
qed

section \<open>Frontier and visited set\<close>

text \<open>
  Claim C4 as stated fails. A seed page that links to itself is appended to the queue while
  it is being processed (its digest is added to \<open>visited\<close> only after the links are
  handled): after the first pass the seed has been processed, is in the queue and has its
  digest in the visited set.
\<close>

theorem visited_entry_still_in_frontier:
  "''https://ex.com/'' \<in> set (visiting_urls (stdout (state_at (example_world site_self_link) ''https://ex.com/'' 1)))
   \<and> ''https://ex.com/'' \<in> set (queue (state_at (example_world site_self_link) ''https://ex.com/'' 1))
   \<and> hash_url (example_world site_self_link) ''https://ex.com/''
        |\<in>| visited (state_at (example_world site_self_link) ''https://ex.com/'' 1)"
  by code_simp

text \<open>
  Claim C4, amended: an entry whose digest is in the visited set may still be in the
  frontier, and it is discarded when it is dequeued: the pass changes nothing but the queue.
  Whatever a pass appends to the frontier had, at the start of that pass, a digest outside
  the visited set.
\<close>

theorem visited_entry_discarded_at_dequeue:
  "running (state_at w start_url n) \<and> queue (state_at w start_url n) = u # q \<longrightarrow>
     (hash_url w u |\<in>| visited (state_at w start_url n) \<longrightarrow>
        state_at w start_url (Suc n) = (state_at w start_url n)\<lparr>queue := q\<rparr>)
     \<and> (\<exists>added. queue (state_at w start_url (Suc n)) = q @ added
          \<and> (\<forall>l\<in>set added. hash_url w l |\<notin>| visited (state_at w start_url n)))"
proof (intro impI, elim conjE)
  let ?s = "state_at w start_url n"
  assume r: "running ?s" and qu: "queue ?s = u # q"
  have nxt: "state_at w start_url (Suc n) = iteration w start_url ?s"
    using r by (rule state_at_Suc_running)
  show "(hash_url w u |\<in>| visited ?s \<longrightarrow> state_at w start_url (Suc n) = ?s\<lparr>queue := q\<rparr>)
     \<and> (\<exists>added. queue (state_at w start_url (Suc n)) = q @ added
          \<and> (\<forall>l\<in>set added. hash_url w l |\<notin>| visited ?s))"
  proof (cases "hash_url w u |\<in>| visited ?s")
    case True
    then have "iteration w start_url ?s = ?s\<lparr>queue := q\<rparr>"
      using qu by (simp add: iteration_skip)
    then have "state_at w start_url (Suc n) = ?s\<lparr>queue := q\<rparr>"
      "queue (state_at w start_url (Suc n)) = q @ []"
      using nxt by simp_all
    then show ?thesis
      by (metis empty_iff list.set(1))
  next
    case False
    have "queue (iteration w start_url ?s) = q @ []
        \<or> (\<exists>ls. queue (iteration w start_url ?s) = q @ [l \<leftarrow> ls. hash_url w l |\<notin>| visited ?s])"
      using visit_outcome [of w start_url u "?s\<lparr>queue := q\<rparr>"] qu False
      by (auto simp: iteration_visit)
    then have "\<exists>added. queue (iteration w start_url ?s) = q @ added
        \<and> (\<forall>l\<in>set added. hash_url w l |\<notin>| visited ?s)"
    proof
      assume "queue (iteration w start_url ?s) = q @ []"
      then show ?thesis
        by (metis empty_iff list.set(1))
    next
      assume "\<exists>ls. queue (iteration w start_url ?s) = q @ [l \<leftarrow> ls. hash_url w l |\<notin>| visited ?s]"
      then obtain ls where "queue (iteration w start_url ?s) = q @ [l \<leftarrow> ls. hash_url w l |\<notin>| visited ?s]"
        by blast
      moreover have "\<forall>l\<in>set [l \<leftarrow> ls. hash_url w l |\<notin>| visited ?s]. hash_url w l |\<notin>| visited ?s"
        by simp
      ultimately show ?thesis
        by blast
    qed
    then show ?thesis
      using False nxt by simp
  qed
qed

text \<open>
  The theorem at the second pass over the site whose seed links to itself: the seed is
  dequeued again with its digest in the visited set, and only the queue changes.
\<close>

theorem visited_entry_discarded_at_dequeue_witness:
  "running (state_at (example_world site_self_link) ''https://ex.com/'' 1)
   \<and> queue (state_at (example_world site_self_link) ''https://ex.com/'' 1) = ''https://ex.com/'' # []
   \<and> hash_url (example_world site_self_link) ''https://ex.com/''
        |\<in>| visited (state_at (example_world site_self_link) ''https://ex.com/'' 1)
   \<and> state_at (example_world site_self_link) ''https://ex.com/'' (Suc 1)
        = (state_at (example_world site_self_link) ''https://ex.com/'' 1)\<lparr>queue := []\<rparr>"
proof -
  let ?w = "example_world site_self_link"
  let ?s = "state_at ?w ''https://ex.com/'' 1"
  have r: "running ?s"
    by code_simp
  have q: "queue ?s = ''https://ex.com/'' # []"
    by code_simp
  have v: "hash_url ?w ''https://ex.com/'' |\<in>| visited ?s"
    by code_simp
  show ?thesis
    using visited_entry_discarded_at_dequeue [of ?w "''https://ex.com/''" 1 "''https://ex.com/''" "[]"]
      r q v by blast
qed

section \<open>Scope of the graph and the frontier\<close>

text \<open>
  Claim C5: at every test of the loop condition, every key and every destination of
  \<^verbatim>\<open>graph_edges\<close> is in scope of the seed, and every entry of the frontier is the seed
  itself or in scope of the seed. An anchor that the classifier does not place in scope is
  therefore in neither.
\<close>

theorem graph_and_frontier_in_scope:
  "(\<forall>src dsts. graph_edges (state_at w start_url n) src = Some dsts \<longrightarrow>
       in_scope w start_url src \<and> (\<forall>d\<in>dsts. in_scope w start_url d))
   \<and> (\<forall>u\<in>set (queue (state_at w start_url n)). u = start_url \<or> in_scope w start_url u)"
proof (intro conjI allI impI)
  fix src dsts
  assume e: "graph_edges (state_at w start_url n) src = Some dsts"
  with scope_invariant [of w start_url n]
  have d: "dsts \<noteq> {}" "src = start_url \<or> in_scope w start_url src" "\<forall>d\<in>dsts. in_scope w start_url d"
    by blast+
  then obtain l where "in_scope w start_url l"
    by blast
  then have "in_scope w start_url start_url"
    by (rule in_scope_seed)
  then show "in_scope w start_url src"
    using d(2) by blast
  show "\<forall>d\<in>dsts. in_scope w start_url d"
    by (rule d(3))
next
  show "\<forall>u\<in>set (queue (state_at w start_url n)). u = start_url \<or> in_scope w start_url u"
    using scope_invariant [of w start_url n] by blast
qed

text \<open>
  The theorem on the example of the specification: after the seed, the graph has the one
  edge to the page of the same host, both ends in scope; the address of the other host is not
  in scope and not in the queue.
\<close>

theorem graph_and_frontier_in_scope_witness:
  "graph_edges (state_at (example_world site_two_hosts) ''https://ex.com/'' 1) ''https://ex.com/''
      = Some {''https://ex.com/a''}
   \<and> queue (state_at (example_world site_two_hosts) ''https://ex.com/'' 1) = [''https://ex.com/a'']
   \<and> in_scope (example_world site_two_hosts) ''https://ex.com/'' ''https://ex.com/''
   \<and> in_scope (example_world site_two_hosts) ''https://ex.com/'' ''https://ex.com/a''
   \<and> \<not> in_scope (example_world site_two_hosts) ''https://ex.com/'' ''https://other.com/''"
proof -
  let ?w = "example_world site_two_hosts"
  let ?s = "state_at ?w ''https://ex.com/'' 1"
  have g: "graph_edges ?s ''https://ex.com/'' = Some {''https://ex.com/a''}"
    by code_simp
  have q: "queue ?s = [''https://ex.com/a'']"
    by code_simp
  have o: "\<not> in_scope ?w ''https://ex.com/'' ''https://other.com/''"
    by code_simp
  have "in_scope ?w ''https://ex.com/'' ''https://ex.com/''"
    "in_scope ?w ''https://ex.com/'' ''https://ex.com/a''"
    using graph_and_frontier_in_scope [of ?w "''https://ex.com/''" 1] g by auto
  then show ?thesis
    using g q o by blast
qed

section \<open>Breadth-first order\<close>

text \<open>
  Claim C6: when the seed page loads with the in-scope links A and B, in this order, and
  the page of A loads with the in-scope link C, and the four digests differ, then the first
  four pages processed are the seed, A, B and C, in this order, whatever the page of B does.
\<close>

theorem breadth_first_order:
  assumes seed: "browser w 0 start_url = loaded anchors0"
      "keep_internal w start_url anchors0 = Inr [A, B]"
    and a: "browser w 1 A = loaded anchors1"
      "keep_internal w start_url anchors1 = Inr [C]"
    and h: "distinct [hash_url w start_url, hash_url w A, hash_url w B, hash_url w C]"
  shows "take 4 (visiting_urls (stdout (crawl_loop w start_url (init_state start_url))))
           = [start_url, A, B, C]"
proof -
  let ?s0 = "init_state start_url :: 'a crawl_state"
    and ?s1 = "state_at w start_url (Suc 0)"
    and ?s2 = "state_at w start_url (Suc (Suc 0))"
    and ?s3 = "state_at w start_url (Suc (Suc (Suc 0)))"
    and ?s4 = "state_at w start_url (Suc (Suc (Suc (Suc 0))))"
  have scope_A: "in_scope w start_url A"
    using seed(2) by (rule keep_internal_in_scope) simp
  obtain f0 fA where f0: "sanitize_folder_name w start_url = Inr f0"
    and fA: "sanitize_folder_name w A = Inr fA"
    using in_scope_sanitize [OF scope_A] by blast
  txt \<open>before the first pass\<close>
  have q0: "queue ?s0 = start_url # []" and v0: "visited ?s0 = {||}"
    and u0: "visiting_urls (stdout ?s0) = []"
    by (simp_all add: init_state_def)
  have r0: "running ?s0"
    by (simp add: running_def q0 v0 fcard_fempty MAX_PAGES_def)
  have n0: "hash_url w start_url |\<notin>| visited ?s0"
    by (simp add: v0)
  txt \<open>the seed\<close>
  have s1: "?s1 = iteration w start_url ?s0"
    using state_at_Suc_running [of w start_url 0] r0 by simp
  have b0: "browser w (length (visiting_urls (stdout ?s0))) start_url = loaded anchors0"
    by (simp add: init_state_def seed(1))
  have q1: "queue ?s1 = A # [B]" and v1: "visited ?s1 = {|hash_url w start_url|}"
    and u1: "visiting_urls (stdout ?s1) = [start_url]"
    unfolding s1
    using iteration_loaded [OF q0 n0 b0 seed(2) f0] by (simp_all add: v0 u0)
  have r1: "running ?s1"
    by (simp add: running_def q1 v1 fcard_finsert_if fcard_fempty MAX_PAGES_def)
  have n1: "hash_url w A |\<notin>| visited ?s1"
    using h by (auto simp: v1)
  txt \<open>A\<close>
  have s2: "?s2 = iteration w start_url ?s1"
    using r1 by (rule state_at_Suc_running)
  have b1: "browser w (length (visiting_urls (stdout ?s1))) A = loaded anchors1"
    using a(1) by (simp add: u1)
  have q2: "queue ?s2 = B # [C]" and v2: "visited ?s2 = {|hash_url w A, hash_url w start_url|}"
    and u2: "visiting_urls (stdout ?s2) = [start_url, A]"
    unfolding s2
    using iteration_loaded [OF q1 n1 b1 a(2) fA] h by (auto simp: v1 u1)
  have r2: "running ?s2"
    by (simp add: running_def q2 v2 fcard_finsert_if fcard_fempty MAX_PAGES_def)
  have n2: "hash_url w B |\<notin>| visited ?s2"
    using h by (auto simp: v2)
  txt \<open>B, whatever its page does\<close>
  have s3: "?s3 = iteration w start_url ?s2"
    using r2 by (rule state_at_Suc_running)
  have u3: "visiting_urls (stdout ?s3) = [start_url, A, B]"
    unfolding s3 using iteration_visiting [OF q2 n2, of start_url] by (simp add: u2)
  have out3: "(queue ?s3 = [C] \<and> visited ?s3 = visited ?s2)
      \<or> (\<exists>ls. queue ?s3 = [C] @ [l \<leftarrow> ls. hash_url w l |\<notin>| visited ?s2]
           \<and> visited ?s3 = finsert (hash_url w B) (visited ?s2))"
    unfolding s3
    using visit_outcome [of w start_url B "?s2\<lparr>queue := [C]\<rparr>"] q2 n2
    by (auto simp: iteration_visit)
  then obtain rest3 where q3: "queue ?s3 = C # rest3"
    by auto
  from out3 have v3: "visited ?s3 |\<subseteq>| {|hash_url w B, hash_url w A, hash_url w start_url|}"
    by (auto simp: v2)
  then have "fcard (visited ?s3) \<le> fcard {|hash_url w B, hash_url w A, hash_url w start_url|}"
    by (rule fcard_mono)
  also have "\<dots> \<le> 3"
    by (simp add: fcard_finsert_if fcard_fempty)
  finally have r3: "running ?s3"
    by (simp add: running_def q3 MAX_PAGES_def)
  have n3: "hash_url w C |\<notin>| visited ?s3"
    using h v3 by auto
  txt \<open>C\<close>
  have s4: "?s4 = iteration w start_url ?s3"
    using r3 by (rule state_at_Suc_running)
  have u4: "visiting_urls (stdout ?s4) = [start_url, A, B, C]"
    unfolding s4 using iteration_visiting [OF q3 n3, of start_url] by (simp add: u3)
  txt \<open>the rest of the run only appends\<close>
  obtain N where N: "crawl_loop w start_url (init_state start_url) = state_at w start_url N"
    "\<not> running (state_at w start_url N)"
    using crawl_loop_final by blast
  show ?thesis
  proof (cases "Suc (Suc (Suc (Suc 0))) \<le> N")
    case True
    then obtain later where "visiting_urls (stdout (state_at w start_url N))
        = visiting_urls (stdout ?s4) @ later"
      using visiting_later [of "Suc (Suc (Suc (Suc 0)))" N w start_url] by blast
    then show ?thesis
      by (simp add: N(1) u4)
  next
    case False
    then have "?s4 = state_at w start_url N"
      using state_at_stopped [OF N(2), of "Suc (Suc (Suc (Suc 0)))"] by simp
    then have "visiting_urls (stdout (state_at w start_url N)) = [start_url, A, B, C]"
      using u4 by simp
    then show ?thesis
      by (simp add: N(1))
  qed
qed

text \<open>
  The theorem at the site where the seed links to A and B and A links to C.
\<close>

theorem breadth_first_order_witness:
  "browser (example_world site_abc) 0 ''https://ex.com/''
      = loaded [''https://ex.com/A'', ''https://ex.com/B'']
   \<and> keep_internal (example_world site_abc) ''https://ex.com/'' [''https://ex.com/A'', ''https://ex.com/B'']
      = Inr [''https://ex.com/A'', ''https://ex.com/B'']
   \<and> browser (example_world site_abc) 1 ''https://ex.com/A'' = loaded [''https://ex.com/C'']
   \<and> keep_internal (example_world site_abc) ''https://ex.com/'' [''https://ex.com/C'']
      = Inr [''https://ex.com/C'']
   \<and> distinct [hash_url (example_world site_abc) ''https://ex.com/'',
        hash_url (example_world site_abc) ''https://ex.com/A'',
        hash_url (example_world site_abc) ''https://ex.com/B'',
        hash_url (example_world site_abc) ''https://ex.com/C'']
   \<and> take 4 (visiting_urls (stdout (crawl_loop (example_world site_abc) ''https://ex.com/''
        (init_state ''https://ex.com/''))))
      = [''https://ex.com/'', ''https://ex.com/A'', ''https://ex.com/B'', ''https://ex.com/C'']"
proof -
  let ?w = "example_world site_abc"
  have b0: "browser ?w 0 ''https://ex.com/'' = loaded [''https://ex.com/A'', ''https://ex.com/B'']"
    by (simp add: example_world_def site_abc_def)
  have k0: "keep_internal ?w ''https://ex.com/'' [''https://ex.com/A'', ''https://ex.com/B'']
      = Inr [''https://ex.com/A'', ''https://ex.com/B'']"
    by code_simp
  have b1: "browser ?w 1 ''https://ex.com/A'' = loaded [''https://ex.com/C'']"
    by (simp add: example_world_def site_abc_def)
  have k1: "keep_internal ?w ''https://ex.com/'' [''https://ex.com/C''] = Inr [''https://ex.com/C'']"
    by code_simp
  have d: "distinct [hash_url ?w ''https://ex.com/'', hash_url ?w ''https://ex.com/A'',
      hash_url ?w ''https://ex.com/B'', hash_url ?w ''https://ex.com/C'']"
    by (simp add: hash_url_def example_world_def)
  show ?thesis
    using breadth_first_order [OF b0 k0 b1 k1 d] b0 k0 b1 k1 d by blast
qed

section \<open>The link classifier\<close>

text \<open>
  Claim C7 as stated fails. \<^verbatim>\<open>urlparse\<close> raises \<open>ValueError\<close> on an address with
  an unclosed bracket in its authority, and \<^verbatim>\<open>is_internal_link\<close> has no handler: the
  exception leaves it, where the claim promises the answer false.
\<close>

theorem is_internal_link_raises:
  "is_internal_link (example_world site_down) START_URL ''http://['' = Inl ValueError"
  by code_simp

text \<open>
  Claim C7, amended: when both addresses parse, \<^verbatim>\<open>is_internal_link\<close> returns whether
  their \<open>netloc\<close> components are equal; when the parse of either address raises,
  \<^verbatim>\<open>is_internal_link\<close> raises.
\<close>

theorem is_internal_link_netloc:
  "(urlparse w base_url = Inr b \<and> urlparse w link_url = Inr l
      \<longrightarrow> is_internal_link w base_url link_url = Inr (netloc b = netloc l))
   \<and> (urlparse w base_url = Inl e \<or> urlparse w link_url = Inl e
      \<longrightarrow> (\<exists>e'. is_internal_link w base_url link_url = Inl e'))"
  by (auto simp: is_internal_link_def split: sum.splits)

text \<open>
  The theorem at two addresses of different hosts, and at a malformed address.
\<close>

theorem is_internal_link_netloc_witness:
  "urlparse (example_world site_down) ''https://ex.com/''
      = Inr \<lparr>scheme = ''https'', netloc = ''ex.com'', path = ''/'', params = [], query = [], fragment = []\<rparr>
   \<and> urlparse (example_world site_down) ''https://other.com/''
      = Inr \<lparr>scheme = ''https'', netloc = ''other.com'', path = ''/'', params = [], query = [], fragment = []\<rparr>
   \<and> is_internal_link (example_world site_down) ''https://ex.com/'' ''https://other.com/'' = Inr False
   \<and> urlparse (example_world site_down) ''http://['' = Inl ValueError
   \<and> is_internal_link (example_world site_down) ''https://ex.com/'' ''http://['' \<noteq> Inr False"
proof -
  let ?w = "example_world site_down"
  have b: "urlparse ?w ''https://ex.com/''
      = Inr \<lparr>scheme = ''https'', netloc = ''ex.com'', path = ''/'', params = [], query = [], fragment = []\<rparr>"
    by code_simp
  have l: "urlparse ?w ''https://other.com/''
      = Inr \<lparr>scheme = ''https'', netloc = ''other.com'', path = ''/'', params = [], query = [], fragment = []\<rparr>"
    by code_simp
  have f: "urlparse ?w ''http://['' = Inl ValueError"
    by code_simp
  have "is_internal_link ?w ''https://ex.com/'' ''https://other.com/'' = Inr False"
    using is_internal_link_netloc [of ?w "''https://ex.com/''"
        "\<lparr>scheme = ''https'', netloc = ''ex.com'', path = ''/'', params = [], query = [], fragment = []\<rparr>"
        "''https://other.com/''"
        "\<lparr>scheme = ''https'', netloc = ''other.com'', path = ''/'', params = [], query = [], fragment = []\<rparr>"
        ValueError] b l
    by simp
  moreover have "is_internal_link ?w ''https://ex.com/'' ''http://['' \<noteq> Inr False"
    using is_internal_link_netloc [of ?w "''https://ex.com/''"
        "\<lparr>scheme = ''https'', netloc = ''ex.com'', path = ''/'', params = [], query = [], fragment = []\<rparr>"
        "''http://[''"
        "\<lparr>scheme = ''https'', netloc = ''ex.com'', path = ''/'', params = [], query = [], fragment = []\<rparr>"
        ValueError] f
    by auto
  ultimately show ?thesis
    using b l f by simp
qed

section \<open>Browser pages\<close>

text \<open>
  Claim C8 does not hold of the code. \<^verbatim>\<open>page.close()\<close> is the last statement of the
  \<^verbatim>\<open>try\<close> body and the handler does not close the page: when the navigation of the
  seed raises, the run ends with one page opened and none closed.
\<close>

theorem page_left_open_after_failure:
  "stdout (crawl_loop (example_world site_down) START_URL (init_state START_URL))
      = [Visiting START_URL, Error_visiting START_URL BrowserError]
   \<and> pages_opened (crawl_loop (example_world site_down) START_URL (init_state START_URL)) = 1
   \<and> pages_closed (crawl_loop (example_world site_down) START_URL (init_state START_URL)) = 0"
  by code_simp

section \<open>A failure before the links are read\<close>

text \<open>
  Claim C9: when the navigation of a dequeued address, or the retrieval of its content,
  raises, the pass leaves the visited set and the graph as they were and the frontier is the
  rest of the queue; the digest of the address is still outside the visited set.
\<close>

theorem failed_page_leaves_state:
  assumes "queue s = url # rest" and "hash_url w url |\<notin>| visited s"
    and "goto_res (browser w (length (visiting_urls (stdout s))) url) \<noteq> None
       \<or> content_res (browser w (length (visiting_urls (stdout s))) url) \<noteq> None"
  shows "visited (iteration w start_url s) = visited s
     \<and> graph_edges (iteration w start_url s) = graph_edges s
     \<and> queue (iteration w start_url s) = rest
     \<and> hash_url w url |\<notin>| visited (iteration w start_url s)"
proof -
  let ?t = "s\<lparr>queue := rest\<rparr>"
  have "visited (fst (visit w start_url url ?t)) = visited s
     \<and> graph_edges (fst (visit w start_url url ?t)) = graph_edges s
     \<and> queue (fst (visit w start_url url ?t)) = rest"
    using assms(3) by (auto simp: visit_def Let_def split: option.split sum.split)
  then show ?thesis
    using assms(1,2) by (simp add: iteration_visit)
qed

text \<open>
  The theorem at the first pass over a site that cannot be reached.
\<close>

theorem failed_page_leaves_state_witness:
  "queue (init_state ''https://ex.com/'' :: string crawl_state) = ''https://ex.com/'' # []
   \<and> hash_url (example_world site_down) ''https://ex.com/''
        |\<notin>| visited (init_state ''https://ex.com/'' :: string crawl_state)
   \<and> goto_res (browser (example_world site_down)
         (length (visiting_urls (stdout (init_state ''https://ex.com/'' :: string crawl_state))))
         ''https://ex.com/'') \<noteq> None
   \<and> visited (iteration (example_world site_down) ''https://ex.com/'' (init_state ''https://ex.com/''))
        = visited (init_state ''https://ex.com/'')
   \<and> graph_edges (iteration (example_world site_down) ''https://ex.com/'' (init_state ''https://ex.com/''))
        = graph_edges (init_state ''https://ex.com/'' :: string crawl_state)
   \<and> queue (iteration (example_world site_down) ''https://ex.com/'' (init_state ''https://ex.com/'')) = []
   \<and> hash_url (example_world site_down) ''https://ex.com/''
        |\<notin>| visited (iteration (example_world site_down) ''https://ex.com/'' (init_state ''https://ex.com/''))"
proof -
  let ?w = "example_world site_down"
  let ?s = "init_state ''https://ex.com/'' :: string crawl_state"
  have q: "queue ?s = ''https://ex.com/'' # []"
    by (simp add: init_state_def)
  have v: "hash_url ?w ''https://ex.com/'' |\<notin>| visited ?s"
    by (simp add: init_state_def)
  have g: "goto_res (browser ?w (length (visiting_urls (stdout ?s))) ''https://ex.com/'') \<noteq> None"
    by (simp add: example_world_def site_down_def navigation_fails_def)
  from g have g': "goto_res (browser ?w (length (visiting_urls (stdout ?s))) ''https://ex.com/'') \<noteq> None
      \<or> content_res (browser ?w (length (visiting_urls (stdout ?s))) ''https://ex.com/'') \<noteq> None"
    by (rule disjI1)
  show ?thesis
    using failed_page_leaves_state [OF q v g', of "''https://ex.com/''"] q v g by blast
qed

section \<open>Folder names\<close>




end
